theory Spec2Isabelle
  imports Complex_Main "HOL-Library.Word"
begin

section \<open>Declarations of yorkle.h\<close>

text \<open>
  Modelled from the spec: the header yorkle.h (the constants WORD_SIZE and
  MAX_NUM_ATTEMPTS, the enumeration letter_result_t and the two structs) is not among the
  sources. The glossary of the specification gives WORD_SIZE = 5 and MAX_ATTEMPTS = 6 for
  the canonical game.
\<close>

definition WORD_SIZE :: nat where
  "WORD_SIZE = 5"

definition MAX_NUM_ATTEMPTS :: nat where
  "MAX_NUM_ATTEMPTS = 6"

text \<open>
  Modelled from the spec: the three verdicts of a letter (Absent, Present, Correct), under
  the names yorkle.c uses for them. \<open>print_attempt_result\<close> tests a verdict against 0
  for LR_INCORRECT and against 1 for LR_WRONG_PLACE, and \<open>compare_result\<close> tests it
  against 2 for LR_IN_PLACE; \<open>lr_value\<close> is that numbering.
\<close>

datatype letter_result_t = LR_INCORRECT | LR_WRONG_PLACE | LR_IN_PLACE

fun lr_value :: "letter_result_t \<Rightarrow> int" where
  "lr_value LR_INCORRECT = 0"
| "lr_value LR_WRONG_PLACE = 1"
| "lr_value LR_IN_PLACE = 2"

section \<open>compare_result\<close>

text \<open>
  The locals of \<open>compare_result\<close> together with the caller's \<open>result\<close> array, which the
  function writes through its third parameter.
\<close>

record compare_state =
  out :: int
  todays_answer_copy :: string
  result :: "letter_result_t list"

text \<open>Lines 239-242: the scratch copy of the answer, one character per index.\<close>

definition copy_answer :: "string \<Rightarrow> string" where
  "copy_answer todays_answer = map (\<lambda>i. todays_answer ! i) [0..<WORD_SIZE]"

text \<open>Lines 245-251: the body of the first loop, at index \<open>i\<close>.\<close>

definition exact_step :: "string \<Rightarrow> string \<Rightarrow> nat \<Rightarrow> compare_state \<Rightarrow> compare_state" where
  "exact_step todays_answer attempt i s =
     (if attempt ! i = todays_answer ! i
      then s\<lparr>result := (result s)[i := LR_IN_PLACE],
             todays_answer_copy := (todays_answer_copy s)[i := CHR ''!'']\<rparr>
      else s\<lparr>out := 0, result := (result s)[i := LR_INCORRECT]\<rparr>)"

text \<open>
  Lines 255-261: the inner loop of the second pass over the remaining indices \<open>j\<close>; the
  \<open>break\<close> is the branch without a recursive call.
\<close>

fun scan_copy :: "string \<Rightarrow> nat \<Rightarrow> nat list \<Rightarrow> compare_state \<Rightarrow> compare_state" where
  "scan_copy attempt i [] s = s"
| "scan_copy attempt i (j # js) s =
     (if attempt ! i = todays_answer_copy s ! j \<and> lr_value (result s ! i) \<noteq> 2
      then s\<lparr>result := (result s)[i := LR_WRONG_PLACE],
             todays_answer_copy := (todays_answer_copy s)[j := CHR ''!'']\<rparr>
      else scan_copy attempt i js s)"

definition misplaced_step :: "string \<Rightarrow> nat \<Rightarrow> compare_state \<Rightarrow> compare_state" where
  "misplaced_step attempt i s = scan_copy attempt i [0..<WORD_SIZE] s"

text \<open>Lines 236-262: the state when the function reaches its \<open>return\<close>.\<close>

definition compare_loops :: "string \<Rightarrow> string \<Rightarrow> letter_result_t list \<Rightarrow> compare_state" where
  "compare_loops todays_answer attempt result0 =
     fold (misplaced_step attempt) [0..<WORD_SIZE]
       (fold (exact_step todays_answer attempt) [0..<WORD_SIZE]
          \<lparr>out = 1, todays_answer_copy = copy_answer todays_answer, result = result0\<rparr>)"

text \<open>
  The function reads the first WORD_SIZE characters of both strings and writes the first
  WORD_SIZE cells of \<open>result\<close>. An argument with fewer defined cells is outside its
  contract (the C code would read or write past it): that is \<open>None\<close>. Otherwise the value
  is the returned integer and the \<open>result\<close> array as the function leaves it.
\<close>

definition compare_result ::
  "string \<Rightarrow> string \<Rightarrow> letter_result_t list \<Rightarrow> (int \<times> letter_result_t list) option" where
  "compare_result todays_answer attempt result0 =
     (if length todays_answer < WORD_SIZE \<or> length attempt < WORD_SIZE
         \<or> length result0 < WORD_SIZE
      then None
      else let s = compare_loops todays_answer attempt result0 in Some (out s, result s))"


text \<open>
  A word of the game: WORD_SIZE lowercase letters. The words in words.txt and the attempts
  that \<open>read_attempt\<close> returns for alphabetic input have this form.
\<close>

definition is_word :: "string \<Rightarrow> bool" where
  "is_word w \<longleftrightarrow>
     length w = WORD_SIZE \<and> (\<forall>c\<in>set w. c \<in> set ''abcdefghijklmnopqrstuvwxyz'')"

text \<open>
  The guess letters whose verdict is LR_IN_PLACE or LR_WRONG_PLACE, in order; counting a
  letter in this list counts the positions marked for it.
\<close>

definition marked_letters :: "string \<Rightarrow> letter_result_t list \<Rightarrow> string" where
  "marked_letters attempt res =
     map fst (filter (\<lambda>(c, v). v = LR_IN_PLACE \<or> v = LR_WRONG_PLACE) (zip attempt res))"

subsection \<open>The two-pass algorithm as the specification words it\<close>

text \<open>
  These definitions follow the text of the specification (section 4.1), not the code: a
  verdict per position that is unset until a pass decides it, and a flag per secret
  position that says whether it has been consumed.
\<close>

datatype verdict = Correct | Present | Absent

fun verdict_of :: "letter_result_t \<Rightarrow> verdict" where
  "verdict_of LR_IN_PLACE = Correct"
| "verdict_of LR_WRONG_PLACE = Present"
| "verdict_of LR_INCORRECT = Absent"

record feedback_state =
  verdicts :: "verdict option list"
  consumed :: "bool list"

text \<open>Pass 1: an exact match is Correct and consumes its own secret position.\<close>

definition spec_pass1 :: "string \<Rightarrow> string \<Rightarrow> feedback_state" where
  "spec_pass1 secret guess =
     \<lparr>verdicts = map (\<lambda>i. if guess ! i = secret ! i then Some Correct else None)
                   [0..<WORD_SIZE],
      consumed = map (\<lambda>i. guess ! i = secret ! i) [0..<WORD_SIZE]\<rparr>"

text \<open>The leftmost unconsumed secret position that holds the letter \<open>c\<close>, if any.\<close>

definition leftmost_unconsumed :: "string \<Rightarrow> bool list \<Rightarrow> char \<Rightarrow> nat option" where
  "leftmost_unconsumed secret cons c =
     find (\<lambda>j. \<not> cons ! j \<and> secret ! j = c) [0..<WORD_SIZE]"

text \<open>
  Pass 2 at guess position \<open>i\<close>: a position that is not Correct becomes Present and
  consumes the leftmost unconsumed match, or becomes Absent when there is none.
\<close>

definition spec_pass2_step ::
  "string \<Rightarrow> string \<Rightarrow> nat \<Rightarrow> feedback_state \<Rightarrow> feedback_state" where
  "spec_pass2_step secret guess i fs =
     (if verdicts fs ! i = Some Correct then fs
      else case leftmost_unconsumed secret (consumed fs) (guess ! i) of
             Some j \<Rightarrow> fs\<lparr>verdicts := (verdicts fs)[i := Some Present],
                           consumed := (consumed fs)[j := True]\<rparr>
           | None \<Rightarrow> fs\<lparr>verdicts := (verdicts fs)[i := Some Absent]\<rparr>)"

definition spec_compare :: "string \<Rightarrow> string \<Rightarrow> feedback_state" where
  "spec_compare secret guess =
     fold (spec_pass2_step secret guess) [0..<WORD_SIZE] (spec_pass1 secret guess)"

section \<open>attempt_is_valid\<close>

text \<open>
  Modelled from the spec: the struct valid_word_list_t of yorkle.h, as
  \<open>load_valid_words\<close> fills it: the rows of \<open>words\<close>, each a string, and the number of
  rows in use.
\<close>

record valid_word_list_t =
  words :: "string list"
  num_words :: int

text \<open>Lines 177 and 187: the line written to standard error for a rejected attempt.\<close>

definition invalid_word_message :: "string \<Rightarrow> string" where
  "invalid_word_message attempt =
     [CHR 0x27] @ attempt @ [CHR 0x27] @ '' is not a valid word.'' @ [CHR 0x0A]"

text \<open>Lines 181-185: the scan of the list; \<open>strcmp\<close> returning 0 is equality of strings.\<close>

fun search_words :: "string list \<Rightarrow> string \<Rightarrow> nat list \<Rightarrow> bool" where
  "search_words ws attempt [] = False"
| "search_words ws attempt (i # is) =
     (if ws ! i = attempt then True else search_words ws attempt is)"

text \<open>The value returned, and the text written to standard error.\<close>

definition attempt_is_valid :: "valid_word_list_t \<Rightarrow> string \<Rightarrow> int \<times> string" where
  "attempt_is_valid valid_words attempt =
     (if length attempt \<noteq> WORD_SIZE then (0, invalid_word_message attempt)
      else if search_words (words valid_words) attempt [0..<nat (num_words valid_words)]
      then (1, [])
      else (0, invalid_word_message attempt))"

text \<open>
  The C library's \<open>tolower\<close> on ASCII, which \<open>read_attempt\<close> (lines 142 and 152) applies
  to every character it stores; \<open>attempt_is_valid\<close> does not call it.
\<close>

definition tolower :: "char \<Rightarrow> char" where
  "tolower c =
     (if 65 \<le> (of_char c :: nat) \<and> (of_char c :: nat) \<le> 90
      then char_of ((of_char c :: nat) + 32) else c)"

section \<open>save_stats and print_stats\<close>

text \<open>
  Modelled from the spec: the struct player_stats_t of yorkle.h, a win counter for each
  number of attempts and a counter of missed words. \<open>save_stats\<close> prints the counters
  with the conversion \<open>%u\<close>, so they are unsigned int: 32 bits, and \<open>++\<close> wraps around.
\<close>

record player_stats_t =
  wins_per_num_attempts :: "32 word list"
  num_missed_words :: "32 word"

text \<open>
  What C leaves undefined and the code does not exclude: a write outside
  \<open>wins_per_num_attempts\<close>, and \<open>fprintf\<close> on the null pointer that a failed \<open>fopen\<close>
  returns.
\<close>

datatype fault = OutOfBoundsWrite | NullStreamWrite

text \<open>
  Lines 309-313. \<open>num_attempts\<close> is an unsigned int, so \<open>num_attempts-1\<close> is computed
  modulo \<open>2 ^ 32\<close>; the comparison with MAX_NUM_ATTEMPTS is unsigned.
\<close>

definition save_stats_update :: "player_stats_t \<Rightarrow> 32 word \<Rightarrow> fault + player_stats_t" where
  "save_stats_update stats num_attempts =
     (if MAX_NUM_ATTEMPTS < unat num_attempts
      then Inr (stats\<lparr>num_missed_words := num_missed_words stats + 1\<rparr>)
      else let i = unat (num_attempts - 1) in
        if i < length (wins_per_num_attempts stats)
        then Inr (stats\<lparr>wins_per_num_attempts :=
                    (wins_per_num_attempts stats)[i := wins_per_num_attempts stats ! i + 1]\<rparr>)
        else Inl OutOfBoundsWrite)"

definition STATS_FILENAME :: string where
  "STATS_FILENAME = ''stats.txt''"

text \<open>The conversion \<open>%u\<close>: an unsigned number in decimal.\<close>

fun decimal :: "nat \<Rightarrow> string" where
  "decimal n =
     (if n < 10 then [''0123456789'' ! n]
      else decimal (n div 10) @ [''0123456789'' ! (n mod 10)])"

declare decimal.simps [simp del]

text \<open>Lines 317-321: the text written to the file.\<close>

definition stats_text :: "player_stats_t \<Rightarrow> string" where
  "stats_text stats =
     concat (map (\<lambda>i. decimal (unat (wins_per_num_attempts stats ! i)) @ '' '')
                 [0..<MAX_NUM_ATTEMPTS])
     @ decimal (unat (num_missed_words stats)) @ [CHR 0x0A]"

text \<open>
  The files of the working directory: the content of each file that exists, and whether
  \<open>fopen\<close> in mode "w" succeeds on a name.
\<close>

record file_system =
  contents :: "string \<Rightarrow> string option"
  writable :: "string \<Rightarrow> bool"

text \<open>
  Lines 308-325. The result of \<open>fopen\<close> is used without a test; the only \<open>return\<close> of
  the function returns 1. A normal return gives the returned value, the stats and the
  files as the call leaves them.
\<close>

definition save_stats ::
  "player_stats_t \<Rightarrow> 32 word \<Rightarrow> file_system
     \<Rightarrow> fault + (int \<times> player_stats_t \<times> file_system)" where
  "save_stats stats num_attempts fs =
     (case save_stats_update stats num_attempts of
        Inl e \<Rightarrow> Inl e
      | Inr stats' \<Rightarrow>
          if writable fs STATS_FILENAME
          then Inr (1, stats',
                    fs\<lparr>contents := (contents fs)(STATS_FILENAME \<mapsto> stats_text stats')\<rparr>)
          else Inl NullStreamWrite)"

text \<open>
  A value of type double, as far as \<open>print_stats\<close> needs it: a finite number (kept exact,
  rounding is not modelled), an infinity or a NaN. \<open>double_div\<close> is the division of
  IEC 60559 on finite operands, where a zero divisor gives an infinity or, for \<open>0 / 0\<close>,
  a NaN.
\<close>

datatype c_double = Finite real | PosInf | NegInf | NaN

definition double_div :: "real \<Rightarrow> real \<Rightarrow> c_double" where
  "double_div x y =
     (if y \<noteq> 0 then Finite (x / y)
      else if x = 0 then NaN else if 0 < x then PosInf else NegInf)"

text \<open>
  Lines 346-356: the two numbers that \<open>print_stats\<close> prints first, the games played
  (an int, printed with \<open>%d\<close>) and the win rate (a double). The sums are computed in
  32 bits. The lines of the guess distribution that follow are not part of this model.
\<close>

record stats_report =
  played :: int
  win_rate :: c_double

definition print_stats :: "player_stats_t \<Rightarrow> stats_report" where
  "print_stats stats =
     (let wins = fold (\<lambda>i w. w + wins_per_num_attempts stats ! i) [0..<MAX_NUM_ATTEMPTS]
                   (0 :: 32 word);
          games = wins + num_missed_words stats
      in \<lparr>played = sint games,
          win_rate = double_div (100 * real_of_int (sint wins)) (real_of_int (sint games))\<rparr>)"

section \<open>Auxiliary definitions for the proofs\<close>

text \<open>The state of \<open>compare_result\<close> after its first loop.\<close>

definition exact_marks :: "string \<Rightarrow> string \<Rightarrow> letter_result_t list" where
  "exact_marks todays_answer attempt =
     map2 (\<lambda>a t. if a = t then LR_IN_PLACE else LR_INCORRECT) attempt todays_answer"

definition exact_copy :: "string \<Rightarrow> string \<Rightarrow> string" where
  "exact_copy todays_answer attempt =
     map2 (\<lambda>a t. if a = t then CHR ''!'' else t) attempt todays_answer"

definition after_exact :: "string \<Rightarrow> string \<Rightarrow> compare_state" where
  "after_exact todays_answer attempt =
     \<lparr>out = (if attempt = todays_answer then 1 else 0),
      todays_answer_copy = exact_copy todays_answer attempt,
      result = exact_marks todays_answer attempt\<rparr>"

text \<open>The invariant of the first loop before index \<open>n\<close>.\<close>

definition exact_inv ::
  "string \<Rightarrow> string \<Rightarrow> letter_result_t list \<Rightarrow> nat \<Rightarrow> compare_state \<Rightarrow> bool" where
  "exact_inv ta att r0 n s \<longleftrightarrow>
     length (result s) = WORD_SIZE \<and> length (todays_answer_copy s) = WORD_SIZE \<and>
     out s = (if \<forall>k<n. att ! k = ta ! k then 1 else 0) \<and>
     (\<forall>k<WORD_SIZE. result s ! k =
        (if k < n then (if att ! k = ta ! k then LR_IN_PLACE else LR_INCORRECT) else r0 ! k)) \<and>
     (\<forall>k<WORD_SIZE. todays_answer_copy s ! k =
        (if k < n \<and> att ! k = ta ! k then CHR ''!'' else ta ! k))"

text \<open>The two assignments of lines 257-258.\<close>

definition consume :: "nat \<Rightarrow> nat \<Rightarrow> compare_state \<Rightarrow> compare_state" where
  "consume i j s = s\<lparr>result := (result s)[i := LR_WRONG_PLACE],
       todays_answer_copy := (todays_answer_copy s)[j := CHR ''!'']\<rparr>"

text \<open>What the second loop keeps of the state \<open>s1\<close> it starts from.\<close>

definition keep_inv :: "compare_state \<Rightarrow> compare_state \<Rightarrow> bool" where
  "keep_inv s1 s \<longleftrightarrow>
     length (result s) = WORD_SIZE \<and> length (todays_answer_copy s) = WORD_SIZE \<and>
     out s = out s1 \<and>
     (\<forall>k<WORD_SIZE. result s ! k = LR_IN_PLACE \<longleftrightarrow> result s1 ! k = LR_IN_PLACE)"

text \<open>
  The marked positions of a letter and its remaining copies in the scratch array never
  exceed its occurrences in the answer.
\<close>

definition count_inv :: "string \<Rightarrow> string \<Rightarrow> char \<Rightarrow> compare_state \<Rightarrow> bool" where
  "count_inv ta att L s \<longleftrightarrow>
     length (result s) = WORD_SIZE \<and> length (todays_answer_copy s) = WORD_SIZE \<and>
     count_list (marked_letters att (result s)) L + count_list (todays_answer_copy s) L
       \<le> count_list ta L"

text \<open>
  The code before guess position \<open>n\<close> of the second loop against the specification's
  state: a consumed position holds \<open>!\<close> in the scratch copy, and the verdicts agree.
\<close>

definition sim :: "string \<Rightarrow> nat \<Rightarrow> compare_state \<Rightarrow> feedback_state \<Rightarrow> bool" where
  "sim secret n s fs \<longleftrightarrow>
     length (result s) = WORD_SIZE \<and> length (todays_answer_copy s) = WORD_SIZE \<and>
     length (verdicts fs) = WORD_SIZE \<and> length (consumed fs) = WORD_SIZE \<and>
     (\<forall>k<WORD_SIZE. todays_answer_copy s ! k =
        (if consumed fs ! k then CHR ''!'' else secret ! k)) \<and>
     (\<forall>k<WORD_SIZE.
        if k < n then verdicts fs ! k = Some (verdict_of (result s ! k))
        else (result s ! k = LR_IN_PLACE \<and> verdicts fs ! k = Some Correct)
           \<or> (result s ! k = LR_INCORRECT \<and> verdicts fs ! k = None))"

section \<open>Lemmas about the loops of compare_result\<close>

lemma fold_upt_invariant:
  assumes "P 0 s" and "\<And>i t. i < n \<Longrightarrow> P i t \<Longrightarrow> P (Suc i) (f i t)"
  shows "P n (fold f [0..<n] s)"
  using assms(2)
proof (induction n)
  case 0
  show ?case using assms(1) by simp
next
  case (Suc n)
  have "P n (fold f [0..<n] s)"
    using Suc.IH Suc.prems by simp
  then show ?case
    using Suc.prems [of n "fold f [0..<n] s"] by simp
qed

lemma copy_answer_id: "length ta = WORD_SIZE \<Longrightarrow> copy_answer ta = ta"
  unfolding copy_answer_def by (metis map_nth)

lemma exact_inv_step:
  assumes "exact_inv ta att r0 n s" "n < WORD_SIZE"
  shows "exact_inv ta att r0 (Suc n) (exact_step ta att n s)"
  using assms unfolding exact_inv_def exact_step_def
  by (auto simp: nth_list_update less_Suc_eq)

lemma exact_pass:
  assumes "length ta = WORD_SIZE" "length att = WORD_SIZE" "length r0 = WORD_SIZE"
  shows "fold (exact_step ta att) [0..<WORD_SIZE]
           \<lparr>out = 1, todays_answer_copy = copy_answer ta, result = r0\<rparr> = after_exact ta att"
proof -
  let ?s = "fold (exact_step ta att) [0..<WORD_SIZE]
              \<lparr>out = 1, todays_answer_copy = copy_answer ta, result = r0\<rparr>"
  have "exact_inv ta att r0 0 \<lparr>out = 1, todays_answer_copy = copy_answer ta, result = r0\<rparr>"
    using assms by (simp add: exact_inv_def copy_answer_id)
  then have inv: "exact_inv ta att r0 WORD_SIZE ?s"
    by (rule fold_upt_invariant) (rule exact_inv_step)
  have 1: "result ?s = exact_marks ta att"
    using inv assms by (intro nth_equalityI) (simp_all add: exact_inv_def exact_marks_def)
  have 2: "todays_answer_copy ?s = exact_copy ta att"
    using inv assms by (intro nth_equalityI) (simp_all add: exact_inv_def exact_copy_def)
  have "(\<forall>k<WORD_SIZE. att ! k = ta ! k) \<longleftrightarrow> att = ta"
    using assms by (auto intro: nth_equalityI)
  then have 3: "out ?s = (if att = ta then 1 else 0)"
    using inv by (simp add: exact_inv_def)
  show ?thesis
    using 1 2 3 by (simp add: after_exact_def)
qed

lemma lr_value_2: "lr_value v \<noteq> 2 \<longleftrightarrow> v \<noteq> LR_IN_PLACE"
  by (cases v) simp_all

lemma scan_copy_find:
  "scan_copy att i js s =
     (if result s ! i = LR_IN_PLACE then s
      else case find (\<lambda>j. todays_answer_copy s ! j = att ! i) js of
             None \<Rightarrow> s | Some j \<Rightarrow> consume i j s)"
  by (induction js) (auto simp: lr_value_2 consume_def)

lemma misplaced_step_cases:
  obtains (keep) "misplaced_step att i s = s"
      and "result s ! i = LR_IN_PLACE \<or> (\<forall>j<WORD_SIZE. todays_answer_copy s ! j \<noteq> att ! i)"
  | (hit) j where "j < WORD_SIZE" and "result s ! i \<noteq> LR_IN_PLACE"
      and "todays_answer_copy s ! j = att ! i"
      and "\<forall>j'<j. todays_answer_copy s ! j' \<noteq> att ! i"
      and "misplaced_step att i s = consume i j s"
proof (cases "result s ! i = LR_IN_PLACE")
  case True
  then show ?thesis using keep by (simp add: misplaced_step_def scan_copy_find)
next
  case False
  show ?thesis
  proof (cases "find (\<lambda>j. todays_answer_copy s ! j = att ! i) [0..<WORD_SIZE]")
    case None
    then have "\<forall>j<WORD_SIZE. todays_answer_copy s ! j \<noteq> att ! i"
      by (simp add: find_None_iff)
    then show ?thesis using keep None False by (simp add: misplaced_step_def scan_copy_find)
  next
    case (Some j)
    then have "j < WORD_SIZE" "todays_answer_copy s ! j = att ! i"
      "\<forall>j'<j. todays_answer_copy s ! j' \<noteq> att ! i"
      by (auto simp: find_Some_iff)
    then show ?thesis using hit [of j] Some False by (simp add: misplaced_step_def scan_copy_find)
  qed
qed

lemma sim_start:
  assumes "length secret = WORD_SIZE" "length guess = WORD_SIZE"
  shows "sim secret 0 (after_exact secret guess) (spec_pass1 secret guess)"
  using assms
  by (simp add: sim_def after_exact_def exact_marks_def exact_copy_def spec_pass1_def)

lemma sim_find:
  assumes "sim secret n s fs" "c \<noteq> CHR ''!''"
  shows "find (\<lambda>j. todays_answer_copy s ! j = c) [0..<WORD_SIZE] =
         leftmost_unconsumed secret (consumed fs) c"
  unfolding leftmost_unconsumed_def
  using assms by (intro find_cong) (auto simp: sim_def)

lemma sim_step:
  assumes "sim secret n s fs" "n < WORD_SIZE" "guess ! n \<noteq> CHR ''!''"
  shows "sim secret (Suc n) (misplaced_step guess n s) (spec_pass2_step secret guess n fs)"
proof -
  have f: "find (\<lambda>j. todays_answer_copy s ! j = guess ! n) [0..<WORD_SIZE] =
         leftmost_unconsumed secret (consumed fs) (guess ! n)"
    using assms(1,3) by (rule sim_find)
  have c: "verdicts fs ! n = Some Correct \<longleftrightarrow> result s ! n = LR_IN_PLACE"
    using assms(1,2) by (auto simp: sim_def)
  show ?thesis
  proof (cases "result s ! n = LR_IN_PLACE")
    case True
    then show ?thesis
      using assms(1,2) c
      by (auto simp: sim_def misplaced_step_def scan_copy_find spec_pass2_step_def less_Suc_eq)
  next
    case False
    then have inc: "result s ! n = LR_INCORRECT"
      using assms(1,2) by (auto simp: sim_def)
    show ?thesis
    proof (cases "leftmost_unconsumed secret (consumed fs) (guess ! n)")
      case None
      then show ?thesis
        using assms(1,2) c f inc
        by (auto simp: sim_def misplaced_step_def scan_copy_find spec_pass2_step_def
            less_Suc_eq nth_list_update)
    next
      case (Some j)
      then have "j < WORD_SIZE"
        by (auto simp: leftmost_unconsumed_def find_Some_iff)
      then show ?thesis
        using assms(1,2) c f inc Some
        by (auto simp: sim_def misplaced_step_def scan_copy_find spec_pass2_step_def
            less_Suc_eq nth_list_update consume_def)
    qed
  qed
qed

lemma sim_fold:
  assumes "sim secret 0 s fs" "\<forall>k<WORD_SIZE. guess ! k \<noteq> CHR ''!''" "n \<le> WORD_SIZE"
  shows "sim secret n (fold (misplaced_step guess) [0..<n] s)
           (fold (spec_pass2_step secret guess) [0..<n] fs)"
  using assms(3)
proof (induction n)
  case 0
  show ?case using assms(1) by simp
next
  case (Suc n)
  then show ?case using assms(2) by (simp add: sim_step)
qed

lemma count_list_update:
  "i < length xs \<Longrightarrow>
     count_list (xs[i := y]) L + (if xs ! i = L then 1 else 0) =
     count_list xs L + (if y = L then 1 else 0)"
proof (induction xs arbitrary: i)
  case Nil
  then show ?case by simp
next
  case (Cons x xs)
  show ?case
  proof (cases i)
    case 0
    then show ?thesis by simp
  next
    case (Suc k)
    then have "count_list (xs[k := y]) L + (if xs ! k = L then 1 else 0) =
        count_list xs L + (if y = L then 1 else 0)"
      using Cons.IH [of k] Cons.prems by simp
    then show ?thesis using Suc by (auto split: if_splits)
  qed
qed

lemma marked_letters_update:
  assumes "i < length att" "i < length res"
  shows "count_list (marked_letters att (res[i := LR_WRONG_PLACE])) L
           \<le> count_list (marked_letters att res) L + (if att ! i = L then 1 else 0)"
  using assms
proof (induction att arbitrary: i res)
  case Nil
  then show ?case by simp
next
  case (Cons a att)
  then obtain r rs where res: "res = r # rs" by (cases res) auto
  show ?case
  proof (cases i)
    case 0
    then show ?thesis using res by (simp add: marked_letters_def)
  next
    case (Suc k)
    then have "count_list (marked_letters att (rs[k := LR_WRONG_PLACE])) L
           \<le> count_list (marked_letters att rs) L + (if att ! k = L then 1 else 0)"
      using Cons.IH [of k rs] Cons.prems res by simp
    then show ?thesis using res Suc by (auto simp: marked_letters_def)
  qed
qed

lemma marked_after_exact:
  assumes "length att = length ta" "L \<noteq> CHR ''!''"
  shows "count_list (marked_letters att (exact_marks ta att)) L + count_list (exact_copy ta att) L
           = count_list ta L"
  using assms
  by (induction att ta rule: list_induct2)
     (simp_all add: marked_letters_def exact_marks_def exact_copy_def)

lemma count_inv_step:
  assumes "count_inv ta att L s" "n < WORD_SIZE" "length att = WORD_SIZE" "L \<noteq> CHR ''!''"
  shows "count_inv ta att L (misplaced_step att n s)"
proof (cases rule: misplaced_step_cases [of att n s])
  case keep
  then show ?thesis using assms(1) by simp
next
  case (hit j)
  have len: "length (result s) = WORD_SIZE" "length (todays_answer_copy s) = WORD_SIZE"
    using assms(1) by (simp_all add: count_inv_def)
  have m: "count_list (marked_letters att ((result s)[n := LR_WRONG_PLACE])) L
           \<le> count_list (marked_letters att (result s)) L + (if att ! n = L then 1 else 0)"
    using assms(2,3) len by (intro marked_letters_update) simp_all
  have c: "count_list ((todays_answer_copy s)[j := CHR ''!'']) L + (if att ! n = L then 1 else 0)
           = count_list (todays_answer_copy s) L"
    using count_list_update [of j "todays_answer_copy s" "CHR ''!''" L] hit(1,3) len assms(4)
    by simp
  show ?thesis
    using assms(1) m c len unfolding count_inv_def hit(5) consume_def
    by (simp split: if_splits)
qed

lemma count_inv_fold:
  assumes "count_inv ta att L s" "length att = WORD_SIZE" "L \<noteq> CHR ''!''"
  shows "count_inv ta att L (fold (misplaced_step att) [0..<WORD_SIZE] s)"
  using assms(1)
  by (rule fold_upt_invariant [where P = "\<lambda>_. count_inv ta att L"])
     (rule count_inv_step [OF _ _ assms(2,3)])

lemma marked_letters_subset: "set (marked_letters att res) \<subseteq> set att"
  by (auto simp: marked_letters_def dest: set_zip_leftD)

lemma keep_inv_step:
  assumes "keep_inv s1 s" "n < WORD_SIZE"
  shows "keep_inv s1 (misplaced_step att n s)"
proof (cases rule: misplaced_step_cases [of att n s])
  case keep
  then show ?thesis using assms(1) by simp
next
  case (hit j)
  then show ?thesis
    using assms by (auto simp: keep_inv_def consume_def nth_list_update)
qed

lemma keep_inv_fold:
  assumes "keep_inv s1 s1"
  shows "keep_inv s1 (fold (misplaced_step att) [0..<WORD_SIZE] s1)"
  using assms
  by (rule fold_upt_invariant [where P = "\<lambda>_. keep_inv s1"]) (rule keep_inv_step)

lemma compare_loops_eq:
  assumes "length ta = WORD_SIZE" "length att = WORD_SIZE" "length r0 = WORD_SIZE"
  shows "compare_loops ta att r0 =
           fold (misplaced_step att) [0..<WORD_SIZE] (after_exact ta att)"
  using assms by (simp add: compare_loops_def exact_pass)

lemma compare_result_eq:
  assumes "length ta = WORD_SIZE" "length att = WORD_SIZE" "length r0 = WORD_SIZE"
  shows "compare_result ta att r0 =
           Some (out (fold (misplaced_step att) [0..<WORD_SIZE] (after_exact ta att)),
                 result (fold (misplaced_step att) [0..<WORD_SIZE] (after_exact ta att)))"
  using assms by (simp add: compare_result_def compare_loops_eq Let_def)

lemma keep_after_exact:
  assumes "length ta = WORD_SIZE" "length att = WORD_SIZE"
  shows "keep_inv (after_exact ta att) (fold (misplaced_step att) [0..<WORD_SIZE] (after_exact ta att))"
  using assms
  by (intro keep_inv_fold) (simp add: keep_inv_def after_exact_def exact_marks_def exact_copy_def)

lemma exact_marks_all:
  assumes "length ta = WORD_SIZE" "length att = WORD_SIZE"
  shows "(\<forall>k<WORD_SIZE. exact_marks ta att ! k = LR_IN_PLACE) \<longleftrightarrow> att = ta"
proof
  assume "\<forall>k<WORD_SIZE. exact_marks ta att ! k = LR_IN_PLACE"
  then have "\<forall>k<WORD_SIZE. att ! k = ta ! k"
    using assms by (auto simp: exact_marks_def split: if_splits)
  then show "att = ta"
    using assms by (intro nth_equalityI) simp_all
next
  assume "att = ta"
  then show "\<forall>k<WORD_SIZE. exact_marks ta att ! k = LR_IN_PLACE"
    using assms by (simp add: exact_marks_def)
qed

lemma bread_erase:
  "fold (misplaced_step ''erase'') [0..<WORD_SIZE] (after_exact ''bread'' ''erase'') =
     \<lparr>out = 0, todays_answer_copy = ''b!!!d'',
      result = [LR_WRONG_PLACE, LR_IN_PLACE, LR_WRONG_PLACE, LR_INCORRECT, LR_INCORRECT]\<rparr>"
  by code_simp

lemma blood_boron:
  "fold (misplaced_step ''boron'') [0..<WORD_SIZE] (after_exact ''blood'' ''boron'') =
     \<lparr>out = 0, todays_answer_copy = ''!l!!d'',
      result = [LR_IN_PLACE, LR_WRONG_PLACE, LR_INCORRECT, LR_IN_PLACE, LR_INCORRECT]\<rparr>"
  by code_simp

lemma count_list_two:
  "a \<noteq> b \<Longrightarrow> count_list xs a + count_list xs b \<le> length xs"
  by (induction xs) auto

lemma marked_letters_absent:
  assumes "L \<notin> set att"
  shows "count_list (marked_letters att res) L = 0"
  using assms marked_letters_subset [of att res] by (auto simp: count_list_0_iff)

lemma count_after_exact:
  assumes "length ta = WORD_SIZE" "length att = WORD_SIZE" "L \<noteq> CHR ''!''"
  shows "count_inv ta att L (after_exact ta att)"
  using assms marked_after_exact [of att ta L]
  by (simp add: count_inv_def after_exact_def exact_marks_def exact_copy_def)

lemma marked_bounded:
  assumes "length ta = WORD_SIZE" "length att = WORD_SIZE" "CHR ''!'' \<notin> set att"
  shows "count_list (marked_letters att
           (result (fold (misplaced_step att) [0..<WORD_SIZE] (after_exact ta att)))) L
         \<le> count_list ta L"
proof (cases "L = CHR ''!''")
  case True
  then show ?thesis using assms(3) by (simp add: marked_letters_absent)
next
  case False
  have "count_inv ta att L (fold (misplaced_step att) [0..<WORD_SIZE] (after_exact ta att))"
    using assms(1,2) False by (intro count_inv_fold count_after_exact)
  then show ?thesis by (simp add: count_inv_def)
qed

lemma is_word_length: "is_word w \<Longrightarrow> length w = WORD_SIZE"
  by (simp add: is_word_def)

lemma is_word_no_mark:
  assumes "is_word w"
  shows "CHR ''!'' \<notin> set w"
proof
  assume "CHR ''!'' \<in> set w"
  then have "CHR ''!'' \<in> set ''abcdefghijklmnopqrstuvwxyz''"
    using assms unfolding is_word_def by blast
  then show False by simp
qed

lemma sim_final:
  assumes "length secret = WORD_SIZE" "length guess = WORD_SIZE" "CHR ''!'' \<notin> set guess"
  shows "sim secret WORD_SIZE
           (fold (misplaced_step guess) [0..<WORD_SIZE] (after_exact secret guess))
           (spec_compare secret guess)"
proof -
  have "\<forall>k<WORD_SIZE. guess ! k \<noteq> CHR ''!''"
    using assms(2,3) by (metis nth_mem)
  then show ?thesis
    unfolding spec_compare_def
    using assms(1,2) by (intro sim_fold sim_start) simp_all
qed

lemma spec_blood_boron:
  "spec_compare ''blood'' ''boron'' =
     \<lparr>verdicts = [Some Correct, Some Present, Some Absent, Some Correct, Some Absent],
      consumed = [True, False, True, True, False]\<rparr>"
  by code_simp

lemma final_state_facts:
  assumes "length ta = WORD_SIZE" "length att = WORD_SIZE"
  defines "s \<equiv> fold (misplaced_step att) [0..<WORD_SIZE] (after_exact ta att)"
  shows "length (result s) = WORD_SIZE"
    and "out s = (if att = ta then 1 else 0)"
    and "(\<forall>k<WORD_SIZE. result s ! k = LR_IN_PLACE) \<longleftrightarrow> att = ta"
proof -
  have k: "keep_inv (after_exact ta att) s"
    unfolding s_def using assms(1,2) by (rule keep_after_exact)
  show "length (result s) = WORD_SIZE"
    using k by (simp add: keep_inv_def)
  show "out s = (if att = ta then 1 else 0)"
    using k by (simp add: keep_inv_def after_exact_def)
  have "(\<forall>k<WORD_SIZE. result s ! k = LR_IN_PLACE) \<longleftrightarrow>
        (\<forall>k<WORD_SIZE. exact_marks ta att ! k = LR_IN_PLACE)"
    using k by (simp add: keep_inv_def after_exact_def)
  then show "(\<forall>k<WORD_SIZE. result s ! k = LR_IN_PLACE) \<longleftrightarrow> att = ta"
    using exact_marks_all [OF assms(1,2)] by simp
qed

lemma all_in_place_replicate:
  assumes "length res = n"
  shows "(\<forall>k<n. res ! k = v) \<longleftrightarrow> res = replicate n v"
  using assms by (auto simp: list_eq_iff_nth_eq)

section \<open>The claims about compare_result\<close>

text \<open>
  C2. The two worked examples: with the answer "bread" the guess "erase" gets the verdicts
  wrong place, in place, wrong place, incorrect, incorrect, and with the answer "blood"
  the guess "boron" gets in place, wrong place, incorrect, in place, incorrect; both
  calls return 0. This holds whatever the \<open>result\<close> array of WORD_SIZE cells held before
  the call.
\<close>

theorem compare_result_worked_examples:
  assumes "length result0 = WORD_SIZE"
  shows "compare_result ''bread'' ''erase'' result0 =
           Some (0, [LR_WRONG_PLACE, LR_IN_PLACE, LR_WRONG_PLACE, LR_INCORRECT, LR_INCORRECT])
       \<and> compare_result ''blood'' ''boron'' result0 =
           Some (0, [LR_IN_PLACE, LR_WRONG_PLACE, LR_INCORRECT, LR_IN_PLACE, LR_INCORRECT])"
proof -
  have "length ''bread'' = WORD_SIZE" "length ''erase'' = WORD_SIZE"
    "length ''blood'' = WORD_SIZE" "length ''boron'' = WORD_SIZE"
    by (simp_all add: WORD_SIZE_def)
  then show ?thesis
    using assms by (simp add: compare_result_eq bread_erase blood_boron)
qed

theorem compare_result_worked_examples_witness:
  "length (replicate 5 LR_IN_PLACE) = WORD_SIZE
   \<and> compare_result ''bread'' ''erase'' (replicate 5 LR_IN_PLACE) =
           Some (0, [LR_WRONG_PLACE, LR_IN_PLACE, LR_WRONG_PLACE, LR_INCORRECT, LR_INCORRECT])
   \<and> compare_result ''blood'' ''boron'' (replicate 5 LR_IN_PLACE) =
           Some (0, [LR_IN_PLACE, LR_WRONG_PLACE, LR_INCORRECT, LR_IN_PLACE, LR_INCORRECT])"
proof -
  have h: "length (replicate 5 LR_IN_PLACE) = WORD_SIZE"
    by (simp add: WORD_SIZE_def)
  show ?thesis
    using h compare_result_worked_examples [OF h] by blast
qed

text \<open>
  C1. For an answer and a guess that are words (WORD_SIZE lowercase letters each), the
  verdicts that \<open>compare_result\<close> leaves satisfy: the positions marked in place or wrong
  place are at most WORD_SIZE together, and for every letter \<open>L\<close> the positions whose
  guess letter is \<open>L\<close> and whose verdict is in place or wrong place are at most the
  occurrences of \<open>L\<close> in the answer. The call returns (the value is not \<open>None\<close>).
\<close>

theorem compare_result_marks_bounded:
  assumes "is_word secret" "is_word guess" "length result0 = WORD_SIZE"
  shows "case compare_result secret guess result0 of
           None \<Rightarrow> False
         | Some (r, res) \<Rightarrow>
             count_list res LR_IN_PLACE + count_list res LR_WRONG_PLACE \<le> WORD_SIZE \<and>
             count_list (marked_letters guess res) L \<le> count_list secret L"
proof -
  let ?s = "fold (misplaced_step guess) [0..<WORD_SIZE] (after_exact secret guess)"
  have len: "length secret = WORD_SIZE" "length guess = WORD_SIZE"
    using assms(1,2) by (simp_all add: is_word_length)
  have eq: "compare_result secret guess result0 = Some (out ?s, result ?s)"
    using len assms(3) by (rule compare_result_eq)
  have "length (result ?s) = WORD_SIZE"
    using keep_after_exact [OF len] by (simp add: keep_inv_def)
  then have 1: "count_list (result ?s) LR_IN_PLACE + count_list (result ?s) LR_WRONG_PLACE
      \<le> WORD_SIZE"
    using count_list_two [of LR_IN_PLACE LR_WRONG_PLACE "result ?s"] by simp
  have 2: "count_list (marked_letters guess (result ?s)) L \<le> count_list secret L"
    using len is_word_no_mark [OF assms(2)] by (rule marked_bounded)
  show ?thesis
    using 1 2 by (simp add: eq)
qed

theorem compare_result_marks_bounded_witness:
  "is_word ''bread'' \<and> is_word ''erase'' \<and> length (replicate 5 LR_INCORRECT) = WORD_SIZE \<and>
   (case compare_result ''bread'' ''erase'' (replicate 5 LR_INCORRECT) of
           None \<Rightarrow> False
         | Some (r, res) \<Rightarrow>
             count_list res LR_IN_PLACE + count_list res LR_WRONG_PLACE \<le> WORD_SIZE \<and>
             count_list (marked_letters ''erase'' res) CHR ''e'' \<le> count_list ''bread'' CHR ''e'')"
proof -
  have h1: "is_word ''bread''" and h2: "is_word ''erase''"
    by (simp_all add: is_word_def WORD_SIZE_def)
  have h3: "length (replicate 5 LR_INCORRECT) = WORD_SIZE"
    by (simp add: WORD_SIZE_def)
  show ?thesis
    using h1 h2 h3 compare_result_marks_bounded [OF h1 h2 h3, of "CHR ''e''"] by blast
qed

text \<open>
  C3. For an answer and a guess that are words, \<open>compare_result\<close> computes the two-pass
  algorithm of the specification: its verdicts are those of \<open>spec_compare\<close>, where after
  the exact matches each guess position that is not Correct, taken from left to right,
  becomes Present and consumes the leftmost unconsumed position of the secret with the
  same letter, or becomes Absent when there is none. The positions consumed are the same
  as well: the scratch copy holds \<open>!\<close> exactly at the positions the specification has
  consumed, and the answer's letter elsewhere.
\<close>

theorem compare_result_two_pass:
  assumes "is_word secret" "is_word guess" "length result0 = WORD_SIZE"
  shows "(case compare_result secret guess result0 of
            None \<Rightarrow> False
          | Some (r, res) \<Rightarrow>
              map (\<lambda>v. Some (verdict_of v)) res = verdicts (spec_compare secret guess))
       \<and> todays_answer_copy (compare_loops secret guess result0) =
           map2 (\<lambda>c used. if used then CHR ''!'' else c) secret
             (consumed (spec_compare secret guess))"
proof -
  let ?s = "fold (misplaced_step guess) [0..<WORD_SIZE] (after_exact secret guess)"
  let ?fs = "spec_compare secret guess"
  have len: "length secret = WORD_SIZE" "length guess = WORD_SIZE"
    using assms(1,2) by (simp_all add: is_word_length)
  have eq: "compare_result secret guess result0 = Some (out ?s, result ?s)"
    using len assms(3) by (rule compare_result_eq)
  have eq': "compare_loops secret guess result0 = ?s"
    using len assms(3) by (rule compare_loops_eq)
  have sim: "sim secret WORD_SIZE ?s ?fs"
    using len is_word_no_mark [OF assms(2)] by (rule sim_final)
  have 1: "map (\<lambda>v. Some (verdict_of v)) (result ?s) = verdicts ?fs"
    using sim by (intro nth_equalityI) (simp_all add: sim_def)
  have 2: "todays_answer_copy ?s =
      map2 (\<lambda>c used. if used then CHR ''!'' else c) secret (consumed ?fs)"
    using sim len by (intro nth_equalityI) (simp_all add: sim_def)
  show ?thesis
    using 1 2 by (simp add: eq eq')
qed

theorem compare_result_two_pass_witness:
  "is_word ''blood'' \<and> is_word ''boron'' \<and> length (replicate 5 LR_INCORRECT) = WORD_SIZE \<and>
   (case compare_result ''blood'' ''boron'' (replicate 5 LR_INCORRECT) of
            None \<Rightarrow> False
          | Some (r, res) \<Rightarrow>
              map (\<lambda>v. Some (verdict_of v)) res = verdicts (spec_compare ''blood'' ''boron''))
       \<and> todays_answer_copy (compare_loops ''blood'' ''boron'' (replicate 5 LR_INCORRECT)) =
           map2 (\<lambda>c used. if used then CHR ''!'' else c) ''blood''
             (consumed (spec_compare ''blood'' ''boron''))"
proof -
  have h1: "is_word ''blood''" and h2: "is_word ''boron''"
    by (simp_all add: is_word_def WORD_SIZE_def)
  have h3: "length (replicate 5 LR_INCORRECT) = WORD_SIZE"
    by (simp add: WORD_SIZE_def)
  show ?thesis
    using h1 h2 h3 compare_result_two_pass [OF h1 h2 h3] by blast
qed

text \<open>
  C4. For an answer and a guess of WORD_SIZE characters each (lowercase or not),
  \<open>compare_result\<close> returns a non-zero value if and only if the guess equals the answer,
  and the guess equals the answer if and only if every verdict is LR_IN_PLACE. In
  particular, comparing an answer with itself returns 1 with every verdict LR_IN_PLACE.
\<close>

theorem compare_result_full_match:
  assumes "length secret = WORD_SIZE" "length guess = WORD_SIZE" "length result0 = WORD_SIZE"
  shows "(case compare_result secret guess result0 of
            None \<Rightarrow> False
          | Some (r, res) \<Rightarrow>
              (r \<noteq> 0 \<longleftrightarrow> guess = secret) \<and>
              (guess = secret \<longleftrightarrow> res = replicate WORD_SIZE LR_IN_PLACE))
       \<and> compare_result secret secret result0 = Some (1, replicate WORD_SIZE LR_IN_PLACE)"
proof -
  let ?s = "fold (misplaced_step guess) [0..<WORD_SIZE] (after_exact secret guess)"
  let ?t = "fold (misplaced_step secret) [0..<WORD_SIZE] (after_exact secret secret)"
  have eq: "compare_result secret guess result0 = Some (out ?s, result ?s)"
    using assms by (rule compare_result_eq)
  have eq': "compare_result secret secret result0 = Some (out ?t, result ?t)"
    using assms(1,1,3) by (rule compare_result_eq)
  have 1: "out ?s \<noteq> 0 \<longleftrightarrow> guess = secret"
    using final_state_facts(2) [OF assms(1,2)] by simp
  have 2: "guess = secret \<longleftrightarrow> result ?s = replicate WORD_SIZE LR_IN_PLACE"
    using final_state_facts(1,3) [OF assms(1,2)] all_in_place_replicate by metis
  have 3: "out ?t = 1"
    using final_state_facts(2) [OF assms(1,1)] by simp
  have 4: "result ?t = replicate WORD_SIZE LR_IN_PLACE"
    using final_state_facts(1,3) [OF assms(1,1)] all_in_place_replicate by metis
  show ?thesis
    using 1 2 3 4 by (simp add: eq eq')
qed

theorem compare_result_full_match_witness:
  "length ''bread'' = WORD_SIZE \<and> length ''erase'' = WORD_SIZE
   \<and> length (replicate 5 LR_WRONG_PLACE) = WORD_SIZE
   \<and> (case compare_result ''bread'' ''erase'' (replicate 5 LR_WRONG_PLACE) of
            None \<Rightarrow> False
          | Some (r, res) \<Rightarrow>
              (r \<noteq> 0 \<longleftrightarrow> ''erase'' = ''bread'') \<and>
              (''erase'' = ''bread'' \<longleftrightarrow> res = replicate WORD_SIZE LR_IN_PLACE))
   \<and> compare_result ''bread'' ''bread'' (replicate 5 LR_WRONG_PLACE) =
        Some (1, replicate WORD_SIZE LR_IN_PLACE)"
proof -
  have h1: "length ''bread'' = WORD_SIZE" and h2: "length ''erase'' = WORD_SIZE"
    and h3: "length (replicate 5 LR_WRONG_PLACE) = WORD_SIZE"
    by (simp_all add: WORD_SIZE_def)
  show ?thesis
    using h1 h2 h3 compare_result_full_match [OF h1 h2 h3] by blast
qed

text \<open>
  C10. On every call with an answer, an attempt and a \<open>result\<close> array of WORD_SIZE cells
  each, \<open>compare_result\<close> returns and leaves WORD_SIZE verdicts, each one of
  LR_INCORRECT, LR_WRONG_PLACE and LR_IN_PLACE, whatever the returned value is. Every
  cell is assigned: the verdicts do not depend on what the array held before the call.
\<close>

theorem compare_result_total:
  assumes "length todays_answer = WORD_SIZE" "length attempt = WORD_SIZE"
    "length result0 = WORD_SIZE"
  shows "case compare_result todays_answer attempt result0 of
           None \<Rightarrow> False
         | Some (r, res) \<Rightarrow>
             length res = WORD_SIZE \<and>
             (\<forall>i<WORD_SIZE. res ! i \<in> {LR_INCORRECT, LR_WRONG_PLACE, LR_IN_PLACE}) \<and>
             (\<forall>result1. length result1 = WORD_SIZE \<longrightarrow>
                compare_result todays_answer attempt result1 = Some (r, res))"
proof -
  let ?s = "fold (misplaced_step attempt) [0..<WORD_SIZE] (after_exact todays_answer attempt)"
  have eq: "compare_result todays_answer attempt r0 = Some (out ?s, result ?s)"
    if "length r0 = WORD_SIZE" for r0
    using assms(1,2) that by (rule compare_result_eq)
  have 1: "length (result ?s) = WORD_SIZE"
    using final_state_facts(1) [OF assms(1,2)] .
  have 2: "v \<in> {LR_INCORRECT, LR_WRONG_PLACE, LR_IN_PLACE}" for v
    by (cases v) simp_all
  show ?thesis
    using 1 2 eq assms(3) by simp
qed

theorem compare_result_total_witness:
  "length ''blood'' = WORD_SIZE \<and> length ''boron'' = WORD_SIZE
   \<and> length (replicate 5 LR_WRONG_PLACE) = WORD_SIZE
   \<and> (case compare_result ''blood'' ''boron'' (replicate 5 LR_WRONG_PLACE) of
           None \<Rightarrow> False
         | Some (r, res) \<Rightarrow>
             length res = WORD_SIZE \<and>
             (\<forall>i<WORD_SIZE. res ! i \<in> {LR_INCORRECT, LR_WRONG_PLACE, LR_IN_PLACE}) \<and>
             (\<forall>result1. length result1 = WORD_SIZE \<longrightarrow>
                compare_result ''blood'' ''boron'' result1 = Some (r, res)))"
proof -
  have h1: "length ''blood'' = WORD_SIZE" and h2: "length ''boron'' = WORD_SIZE"
    and h3: "length (replicate 5 LR_WRONG_PLACE) = WORD_SIZE"
    by (simp_all add: WORD_SIZE_def)
  show ?thesis
    using h1 h2 h3 compare_result_total [OF h1 h2 h3] by blast
qed

section \<open>Lemmas about attempt_is_valid, save_stats and print_stats\<close>

lemma search_words_iff:
  "search_words ws attempt js \<longleftrightarrow> (\<exists>j\<in>set js. ws ! j = attempt)"
  by (induction js) auto

lemma search_words_take:
  assumes "n \<le> length ws"
  shows "search_words ws attempt [0..<n] \<longleftrightarrow> attempt \<in> set (take n ws)"
proof -
  have "set (take n ws) = nth ws ` {0..<n}"
    using assms by (simp add: nth_image)
  then show ?thesis
    by (auto simp: search_words_iff)
qed

lemma unat_pred:
  fixes k :: "32 word"
  assumes "1 \<le> unat k"
  shows "unat (k - 1) = unat k - 1"
  using assms by (metis unat_minus_one unat_eq_zero not_one_le_zero)

lemma unat_succ_word:
  fixes x :: "32 word"
  shows "unat (x + 1) = (unat x + 1) mod 2 ^ 32"
  by (simp add: unat_word_ariths)

lemma unat_succ_word_small:
  fixes x :: "32 word"
  assumes "unat x < 2 ^ 32 - 1"
  shows "unat (x + 1) = unat x + 1"
  using assms by (simp add: unat_word_ariths)

lemma save_stats_returns_one:
  assumes "save_stats stats k fs = Inr (r, stats', fs')"
  shows "r = 1 \<and> writable fs STATS_FILENAME \<and> save_stats_update stats k = Inr stats'"
  using assms by (auto simp: save_stats_def split: sum.splits if_splits)

lemma stats_text_example:
  "stats_text \<lparr>wins_per_num_attempts = [0, 2, 0, 11, 0, 0], num_missed_words = 3\<rparr>
     = ''0 2 0 11 0 0 3'' @ [CHR 0x0A]"
  by code_simp

lemma save_stats_writable_example:
  "save_stats \<lparr>wins_per_num_attempts = [0, 2, 0, 10, 0, 0], num_missed_words = 3\<rparr> 4
        \<lparr>contents = Map.empty, writable = (\<lambda>name. True)\<rparr>
   = Inr (1, \<lparr>wins_per_num_attempts = [0, 2, 0, 11, 0, 0], num_missed_words = 3\<rparr>,
          \<lparr>contents = [STATS_FILENAME \<mapsto> ''0 2 0 11 0 0 3'' @ [CHR 0x0A]],
           writable = (\<lambda>name. True)\<rparr>)"
  by (simp add: save_stats_def save_stats_update_def MAX_NUM_ATTEMPTS_def stats_text_example)

section \<open>The claim about attempt_is_valid\<close>

text \<open>
  C6, as stated, fails: the claim accepts an attempt that differs from a listed word only
  in letter case. The attempt "BREAD" has WORD_SIZE characters and its lowercase form
  "bread" is in the list, yet \<open>attempt_is_valid\<close> returns 0 and writes the diagnostic,
  because \<open>strcmp\<close> compares the attempt as it is given.
\<close>

theorem attempt_is_valid_case_sensitive:
  "length ''BREAD'' = WORD_SIZE \<and> map tolower ''BREAD'' = ''bread''
   \<and> ''bread'' \<in> set (words \<lparr>words = [''bread''], num_words = 1\<rparr>)
   \<and> attempt_is_valid \<lparr>words = [''bread''], num_words = 1\<rparr> ''BREAD''
        = (0, invalid_word_message ''BREAD'')"
  by code_simp

text \<open>
  C6, amended. \<open>attempt_is_valid\<close> accepts an attempt (returns 1 and writes nothing) if
  and only if it has exactly WORD_SIZE characters and is, character for character, one of
  the first \<open>num_words\<close> entries of the list; otherwise it returns 0 and writes the one
  diagnostic that names the attempt. The length is tested first, so an attempt of another
  length is rejected even when the list contains it. The two rejections have the same
  returned value and the same diagnostic. No character is converted to lowercase here;
  \<open>read_attempt\<close> does that before the attempt reaches this function.
\<close>

theorem attempt_is_valid_exact:
  assumes "nat (num_words valid_words) \<le> length (words valid_words)"
  shows "attempt_is_valid valid_words attempt =
           (if length attempt = WORD_SIZE
               \<and> attempt \<in> set (take (nat (num_words valid_words)) (words valid_words))
            then (1, []) else (0, invalid_word_message attempt))"
  using assms by (simp add: attempt_is_valid_def search_words_take)

theorem attempt_is_valid_exact_witness:
  "nat (num_words \<lparr>words = [''bread'', ''blood'', ''abcd''], num_words = 3\<rparr>)
     \<le> length (words \<lparr>words = [''bread'', ''blood'', ''abcd''], num_words = 3\<rparr>)
   \<and> attempt_is_valid \<lparr>words = [''bread'', ''blood'', ''abcd''], num_words = 3\<rparr> ''blood''
       = (1, [])
   \<and> attempt_is_valid \<lparr>words = [''bread'', ''blood'', ''abcd''], num_words = 3\<rparr> ''abcd''
       = (0, invalid_word_message ''abcd'')
   \<and> attempt_is_valid \<lparr>words = [''bread'', ''blood'', ''abcd''], num_words = 3\<rparr> ''Blood''
       = (0, invalid_word_message ''Blood'')"
proof -
  let ?vw = "\<lparr>words = [''bread'', ''blood'', ''abcd''], num_words = 3\<rparr>"
  have h: "nat (num_words ?vw) \<le> length (words ?vw)"
    by simp
  show ?thesis
    using h attempt_is_valid_exact [OF h, of "''blood''"]
      attempt_is_valid_exact [OF h, of "''abcd''"]
      attempt_is_valid_exact [OF h, of "''Blood''"]
    by (simp add: WORD_SIZE_def)
qed

section \<open>The claims about save_stats and print_stats\<close>

text \<open>
  C7, as stated, fails for a counter that holds the largest unsigned value: a win in one
  attempt recorded on a first win counter of 4294967295 leaves that counter at 0, which
  is not the old value plus 1.
\<close>

theorem save_stats_update_wraps:
  "save_stats_update
     \<lparr>wins_per_num_attempts = [4294967295, 0, 0, 0, 0, 0], num_missed_words = 0\<rparr> 1
     = Inr \<lparr>wins_per_num_attempts = [0, 0, 0, 0, 0, 0], num_missed_words = 0\<rparr>
   \<and> unat (0 :: 32 word) \<noteq> unat (4294967295 :: 32 word) + 1"
  by (simp add: save_stats_update_def MAX_NUM_ATTEMPTS_def)

text \<open>
  C7, amended. For stats with MAX_NUM_ATTEMPTS win counters: a number of attempts \<open>k\<close>
  from 1 to MAX_NUM_ATTEMPTS adds 1 modulo \<open>2 ^ 32\<close> to the win counter at index
  \<open>k - 1\<close> (exactly 1 when that counter is below \<open>2 ^ 32 - 1\<close>) and leaves every other
  win counter and the counter of missed words as they were; a number of attempts above
  MAX_NUM_ATTEMPTS adds 1 modulo \<open>2 ^ 32\<close> to the counter of missed words (exactly 1 when
  it is below \<open>2 ^ 32 - 1\<close>) and leaves every win counter as it was.
\<close>

theorem save_stats_update_modular:
  assumes "length (wins_per_num_attempts stats) = MAX_NUM_ATTEMPTS"
  shows "(1 \<le> unat k \<and> unat k \<le> MAX_NUM_ATTEMPTS \<longrightarrow>
            (case save_stats_update stats k of
               Inl e \<Rightarrow> False
             | Inr stats' \<Rightarrow>
                 length (wins_per_num_attempts stats') = MAX_NUM_ATTEMPTS \<and>
                 unat (wins_per_num_attempts stats' ! (unat k - 1))
                   = (unat (wins_per_num_attempts stats ! (unat k - 1)) + 1) mod 2 ^ 32 \<and>
                 (unat (wins_per_num_attempts stats ! (unat k - 1)) < 2 ^ 32 - 1 \<longrightarrow>
                    unat (wins_per_num_attempts stats' ! (unat k - 1))
                      = unat (wins_per_num_attempts stats ! (unat k - 1)) + 1) \<and>
                 (\<forall>i<MAX_NUM_ATTEMPTS. i \<noteq> unat k - 1 \<longrightarrow>
                    wins_per_num_attempts stats' ! i = wins_per_num_attempts stats ! i) \<and>
                 num_missed_words stats' = num_missed_words stats))
       \<and> (MAX_NUM_ATTEMPTS < unat k \<longrightarrow>
            (case save_stats_update stats k of
               Inl e \<Rightarrow> False
             | Inr stats' \<Rightarrow>
                 unat (num_missed_words stats')
                   = (unat (num_missed_words stats) + 1) mod 2 ^ 32 \<and>
                 (unat (num_missed_words stats) < 2 ^ 32 - 1 \<longrightarrow>
                    unat (num_missed_words stats') = unat (num_missed_words stats) + 1) \<and>
                 wins_per_num_attempts stats' = wins_per_num_attempts stats))"
proof (intro conjI impI)
  assume k: "1 \<le> unat k \<and> unat k \<le> MAX_NUM_ATTEMPTS"
  then have i: "unat (k - 1) = unat k - 1" by (simp add: unat_pred)
  then have b: "unat (k - 1) < length (wins_per_num_attempts stats)"
    using k assms by arith
  have eq: "save_stats_update stats k =
      Inr (stats\<lparr>wins_per_num_attempts := (wins_per_num_attempts stats)
             [unat k - 1 := wins_per_num_attempts stats ! (unat k - 1) + 1]\<rparr>)"
    using k b i by (simp add: save_stats_update_def Let_def)
  show "case save_stats_update stats k of
               Inl e \<Rightarrow> False
             | Inr stats' \<Rightarrow>
                 length (wins_per_num_attempts stats') = MAX_NUM_ATTEMPTS \<and>
                 unat (wins_per_num_attempts stats' ! (unat k - 1))
                   = (unat (wins_per_num_attempts stats ! (unat k - 1)) + 1) mod 2 ^ 32 \<and>
                 (unat (wins_per_num_attempts stats ! (unat k - 1)) < 2 ^ 32 - 1 \<longrightarrow>
                    unat (wins_per_num_attempts stats' ! (unat k - 1))
                      = unat (wins_per_num_attempts stats ! (unat k - 1)) + 1) \<and>
                 (\<forall>i<MAX_NUM_ATTEMPTS. i \<noteq> unat k - 1 \<longrightarrow>
                    wins_per_num_attempts stats' ! i = wins_per_num_attempts stats ! i) \<and>
                 num_missed_words stats' = num_missed_words stats"
    using b i assms unat_succ_word [of "wins_per_num_attempts stats ! (unat k - 1)"]
      unat_succ_word_small [of "wins_per_num_attempts stats ! (unat k - 1)"]
    by (simp add: eq)
next
  assume "MAX_NUM_ATTEMPTS < unat k"
  then have eq: "save_stats_update stats k =
      Inr (stats\<lparr>num_missed_words := num_missed_words stats + 1\<rparr>)"
    by (simp add: save_stats_update_def)
  show "case save_stats_update stats k of
               Inl e \<Rightarrow> False
             | Inr stats' \<Rightarrow>
                 unat (num_missed_words stats')
                   = (unat (num_missed_words stats) + 1) mod 2 ^ 32 \<and>
                 (unat (num_missed_words stats) < 2 ^ 32 - 1 \<longrightarrow>
                    unat (num_missed_words stats') = unat (num_missed_words stats) + 1) \<and>
                 wins_per_num_attempts stats' = wins_per_num_attempts stats"
    using unat_succ_word [of "num_missed_words stats"]
      unat_succ_word_small [of "num_missed_words stats"]
    by (simp add: eq)
qed

theorem save_stats_update_modular_witness:
  "length (wins_per_num_attempts
      \<lparr>wins_per_num_attempts = [1, 2, 3, 4, 5, 4294967295], num_missed_words = 7\<rparr>)
     = MAX_NUM_ATTEMPTS
   \<and> (1 \<le> unat (3 :: 32 word) \<and> unat (3 :: 32 word) \<le> MAX_NUM_ATTEMPTS)
   \<and> (case save_stats_update
          \<lparr>wins_per_num_attempts = [1, 2, 3, 4, 5, 4294967295], num_missed_words = 7\<rparr> 3 of
         Inl e \<Rightarrow> False
       | Inr stats' \<Rightarrow>
           unat (wins_per_num_attempts stats' ! 2) = 4 \<and> num_missed_words stats' = 7)
   \<and> (1 \<le> unat (6 :: 32 word) \<and> unat (6 :: 32 word) \<le> MAX_NUM_ATTEMPTS)
   \<and> (case save_stats_update
          \<lparr>wins_per_num_attempts = [1, 2, 3, 4, 5, 4294967295], num_missed_words = 7\<rparr> 6 of
         Inl e \<Rightarrow> False
       | Inr stats' \<Rightarrow>
           unat (wins_per_num_attempts stats' ! 5) = 0 \<and> num_missed_words stats' = 7)
   \<and> MAX_NUM_ATTEMPTS < unat (7 :: 32 word)
   \<and> (case save_stats_update
          \<lparr>wins_per_num_attempts = [1, 2, 3, 4, 5, 4294967295], num_missed_words = 7\<rparr> 7 of
         Inl e \<Rightarrow> False
       | Inr stats' \<Rightarrow>
           unat (num_missed_words stats') = 8 \<and>
           wins_per_num_attempts stats' = [1, 2, 3, 4, 5, 4294967295])"
proof -
  let ?stats = "\<lparr>wins_per_num_attempts = [1, 2, 3, 4, 5, 4294967295],
                  num_missed_words = 7 :: 32 word\<rparr>"
  have h: "length (wins_per_num_attempts ?stats) = MAX_NUM_ATTEMPTS"
    by (simp add: MAX_NUM_ATTEMPTS_def)
  have k3: "1 \<le> unat (3 :: 32 word) \<and> unat (3 :: 32 word) \<le> MAX_NUM_ATTEMPTS"
    by (simp add: MAX_NUM_ATTEMPTS_def)
  have k6: "1 \<le> unat (6 :: 32 word) \<and> unat (6 :: 32 word) \<le> MAX_NUM_ATTEMPTS"
    by (simp add: MAX_NUM_ATTEMPTS_def)
  have k7: "MAX_NUM_ATTEMPTS < unat (7 :: 32 word)"
    by (simp add: MAX_NUM_ATTEMPTS_def)
  have w: "case save_stats_update ?stats 3 of
         Inl e \<Rightarrow> False
       | Inr stats' \<Rightarrow>
           unat (wins_per_num_attempts stats' ! 2) = 4 \<and> num_missed_words stats' = 7"
    using save_stats_update_modular [OF h, of 3] k3
    by (auto split: sum.splits)
  have o: "case save_stats_update ?stats 6 of
         Inl e \<Rightarrow> False
       | Inr stats' \<Rightarrow>
           unat (wins_per_num_attempts stats' ! 5) = 0 \<and> num_missed_words stats' = 7"
    using save_stats_update_modular [OF h, of 6] k6
    by (auto split: sum.splits)
  have l: "case save_stats_update ?stats 7 of
         Inl e \<Rightarrow> False
       | Inr stats' \<Rightarrow>
           unat (num_missed_words stats') = 8 \<and>
           wins_per_num_attempts stats' = [1, 2, 3, 4, 5, 4294967295]"
    using save_stats_update_modular [OF h, of 7] k7
    by (auto split: sum.splits)
  show ?thesis
    using h k3 k6 k7 w o l by blast
qed

text \<open>
  C9 fails at \<open>num_attempts = 0\<close>: the test \<open>0 > MAX_NUM_ATTEMPTS\<close> is false, so the
  win branch runs with the index \<open>0 - 1\<close>, which in unsigned arithmetic is 4294967295,
  outside the MAX_NUM_ATTEMPTS counters: the assignment writes out of bounds.
\<close>

theorem save_stats_update_zero_attempts:
  assumes "length (wins_per_num_attempts stats) = MAX_NUM_ATTEMPTS"
  shows "unat (0 - 1 :: 32 word) = 4294967295
       \<and> save_stats_update stats 0 = Inl OutOfBoundsWrite"
  using assms
  by (simp add: save_stats_update_def MAX_NUM_ATTEMPTS_def unsigned_minus_1_eq_mask mask_eq_exp_minus_1)

theorem save_stats_update_zero_attempts_witness:
  "length (wins_per_num_attempts
      \<lparr>wins_per_num_attempts = [0, 0, 0, 0, 0, 0], num_missed_words = 0\<rparr>) = MAX_NUM_ATTEMPTS
   \<and> unat (0 - 1 :: 32 word) = 4294967295
   \<and> save_stats_update
        \<lparr>wins_per_num_attempts = [0, 0, 0, 0, 0, 0], num_missed_words = 0\<rparr> 0
       = Inl OutOfBoundsWrite"
proof -
  let ?stats = "\<lparr>wins_per_num_attempts = [0, 0, 0, 0, 0, 0], num_missed_words = 0 :: 32 word\<rparr>"
  have h: "length (wins_per_num_attempts ?stats) = MAX_NUM_ATTEMPTS"
    by (simp add: MAX_NUM_ATTEMPTS_def)
  show ?thesis
    using h save_stats_update_zero_attempts [OF h] by blast
qed

text \<open>
  C8 fails: when stats.txt cannot be opened for writing, \<open>save_stats\<close> does not return
  0. It passes the null pointer to \<open>fprintf\<close>, and it has no normal return at all in
  that case; whenever it does return, it returns 1.
\<close>

theorem save_stats_unchecked_fopen:
  assumes "\<not> writable fs STATS_FILENAME"
  shows "(\<forall>stats'. save_stats_update stats k = Inr stats' \<longrightarrow>
            save_stats stats k fs = Inl NullStreamWrite)
       \<and> (\<forall>r stats' fs'. save_stats stats k fs \<noteq> Inr (r, stats', fs'))"
  using assms by (auto simp: save_stats_def split: sum.splits)

theorem save_stats_unchecked_fopen_witness:
  "\<not> writable \<lparr>contents = Map.empty, writable = (\<lambda>name. False)\<rparr> STATS_FILENAME
   \<and> save_stats_update
        \<lparr>wins_per_num_attempts = [0, 0, 0, 0, 0, 0], num_missed_words = 0\<rparr> 1
       = Inr \<lparr>wins_per_num_attempts = [1, 0, 0, 0, 0, 0], num_missed_words = 0\<rparr>
   \<and> save_stats \<lparr>wins_per_num_attempts = [0, 0, 0, 0, 0, 0], num_missed_words = 0\<rparr> 1
        \<lparr>contents = Map.empty, writable = (\<lambda>name. False)\<rparr> = Inl NullStreamWrite"
proof -
  let ?fs = "\<lparr>contents = Map.empty :: string \<Rightarrow> string option, writable = (\<lambda>name. False)\<rparr>"
  let ?stats = "\<lparr>wins_per_num_attempts = [0, 0, 0, 0, 0, 0], num_missed_words = 0 :: 32 word\<rparr>"
  have h: "\<not> writable ?fs STATS_FILENAME"
    by simp
  have u: "save_stats_update ?stats 1
       = Inr \<lparr>wins_per_num_attempts = [1, 0, 0, 0, 0, 0], num_missed_words = 0\<rparr>"
    by (simp add: save_stats_update_def MAX_NUM_ATTEMPTS_def)
  show ?thesis
    using h u save_stats_unchecked_fopen [OF h, of ?stats 1] by blast
qed

text \<open>
  C5 fails: with every counter zero, \<open>print_stats\<close> reports 0 games played and computes
  the win rate as \<open>100.0 * 0 / 0\<close>. Nothing guards that division, and its value is a
  NaN, not 0.
\<close>

theorem print_stats_zero_games:
  "print_stats \<lparr>wins_per_num_attempts = [0, 0, 0, 0, 0, 0], num_missed_words = 0\<rparr>
     = \<lparr>played = 0, win_rate = NaN\<rparr>"
  by (simp add: print_stats_def MAX_NUM_ATTEMPTS_def double_div_def upt_rec)

end
